theory Spec2Isabelle
  imports Main "HOL-Library.Word" "HOL-Library.Multiset"
begin

section \<open>BOLT's AddressMap: the input-to-output address table\<close>

text \<open>
  The class \<open>AddressMap\<close> of \<open>bolt/Core/AddressMap.h\<close> holds two containers:
  \<open>Address2AddressMap\<close>, a \<open>std::unordered_multimap<uint64_t, uint64_t>\<close>, and
  \<open>Label2AddrMap\<close>, a \<open>DenseMap<const MCSymbol *, uint64_t>\<close>. Its four query
  methods are defined in the header and are embedded below line by line. The two
  static methods \<open>emit\<close> and \<open>parse\<close> are only declared there.
\<close>

subsection \<open>The unordered multimap\<close>

type_synonym u64 = "64 word"

text \<open>
  \<open>std::unordered_multimap\<close> belongs to the C++ standard library, not to the
  repository. Its operations are modelled as the standard describes them and as the
  hash tables of libstdc++ and libc++ carry them out.

  The multimap is the sequence of its elements in iteration order. An iterator is a
  position in that sequence: \<open>begin()\<close> is 0, \<open>end()\<close> is the length, \<open>++It\<close> is the
  successor, and \<open>It->second\<close> reads the second component of the element at \<open>It\<close>.
\<close>

type_synonym Addr2AddrMapTy = "(u64 \<times> u64) list"

definition umm_end :: "Addr2AddrMapTy \<Rightarrow> nat" where
  "umm_end es = length es"

text \<open>
  \<open>find(k)\<close> returns an iterator to an element whose key is \<open>k\<close>, or \<open>end()\<close>. The
  hash tables of libstdc++ and libc++ both walk the bucket chain and stop at the first
  node with that key, which is the first such element in iteration order.
\<close>

definition umm_find :: "u64 \<Rightarrow> Addr2AddrMapTy \<Rightarrow> nat" where
  "umm_find k es = length (takeWhile (\<lambda>e. fst e \<noteq> k) es)"

text \<open>
  \<open>equal_range(k)\<close> starts at \<open>find(k)\<close> and advances while the key stays \<open>k\<close>;
  it is \<open>(end(), end())\<close> when no element has key \<open>k\<close>.
\<close>

definition equal_range :: "u64 \<Rightarrow> Addr2AddrMapTy \<Rightarrow> nat \<times> nat" where
  "equal_range k es =
     (let first = umm_find k es
      in (first, first + length (takeWhile (\<lambda>e. fst e = k) (drop first es))))"

text \<open>
  The C++ standard keeps elements with equal keys adjacent in iteration order, and leaves
  open where in its group \<open>emplace\<close> puts a new element. That choice is the parameter
  \<open>placement\<close>: given the values already in the group, in iteration order, and the new
  value, it returns the offset in the group at which the new element goes (an offset
  beyond the group counts as its end). libstdc++ links the new node in front of the first
  equal one (\<open>place_front\<close>); libc++ links it behind the last equal one (\<open>place_back\<close>).

  An element with a new key starts a new group. Both libraries link a node whose bucket
  is empty at the head of the list, and the model puts a new group first. In the real
  container the place of a new group depends on the hash buckets, and a rehash may
  reorder the groups; the order between groups is not observed by the queries of
  \<open>AddressMap\<close>, which reach a group through \<open>find\<close> and \<open>equal_range\<close> only.
\<close>

type_synonym placement = "u64 list \<Rightarrow> u64 \<Rightarrow> nat"

definition place_front :: placement where
  "place_front grp v = 0"

definition place_back :: placement where
  "place_back grp v = length grp"

definition insert_at :: "nat \<Rightarrow> 'a \<Rightarrow> 'a list \<Rightarrow> 'a list" where
  "insert_at p x xs = take p xs @ x # drop p xs"

definition emplace :: "placement \<Rightarrow> u64 \<times> u64 \<Rightarrow> Addr2AddrMapTy \<Rightarrow> Addr2AddrMapTy" where
  "emplace pl e es =
     (let r = equal_range (fst e) es
      in if fst r = umm_end es then e # es
         else
           let n = snd r - fst r;
               grp = map snd (take n (drop (fst r) es))
           in insert_at (fst r + min (pl grp (snd e)) n) e es)"

text \<open>A sequence of insertions into the multimap, one \<open>emplace\<close> after the other.\<close>

definition emplace_all :: "placement \<Rightarrow> (u64 \<times> u64) list \<Rightarrow> Addr2AddrMapTy \<Rightarrow> Addr2AddrMapTy" where
  "emplace_all pl ps es = foldl (\<lambda>es e. emplace pl e es) es ps"

subsection \<open>The label map\<close>

text \<open>
  A \<open>const MCSymbol *\<close> is compared by identity: the model keeps the address only.
\<close>

datatype MCSymbol_ptr = MCSymbolAt nat

text \<open>
  Modelled from the spec: \<open>llvm::DenseMap\<close> (\<open>llvm/ADT/DenseMap.h\<close>) is not among the
  sources. Section 3 of the specification describes \<open>LabelToAddress\<close> as a relation from
  an identity-compared label to an output address; it is modelled as the sequence of the
  table's entries.
\<close>

type_synonym Label2AddrMapTy = "(MCSymbol_ptr \<times> u64) list"

text \<open>
  Modelled from the spec: \<open>DenseMap::end\<close> is not among the sources; an iterator is a
  position in the sequence of entries and \<open>end()\<close> is its length.
\<close>

definition dm_end :: "Label2AddrMapTy \<Rightarrow> nat" where
  "dm_end ls = length ls"

text \<open>
  Modelled from the spec: \<open>DenseMap::find\<close> is not among the sources; section 4.1 has
  the lookup by label find the entry recorded for the label, or nothing.
\<close>

definition dm_find :: "MCSymbol_ptr \<Rightarrow> Label2AddrMapTy \<Rightarrow> nat" where
  "dm_find s ls = length (takeWhile (\<lambda>e. fst e \<noteq> s) ls)"

text \<open>
  Modelled from the spec: \<open>DenseMap::insert\<close> is not among the sources; it is the
  first-wins recording of section 9, which keeps the entry a label already has.
\<close>

definition dm_insert :: "MCSymbol_ptr \<times> u64 \<Rightarrow> Label2AddrMapTy \<Rightarrow> Label2AddrMapTy" where
  "dm_insert e ls = (if dm_find (fst e) ls \<noteq> dm_end ls then ls else ls @ [e])"

text \<open>
  Modelled from the spec: the assignment through \<open>DenseMap::operator[]\<close> is not among
  the sources; it is the last-wins recording of section 9, which overwrites the address
  of the entry a label already has.
\<close>

definition dm_assign :: "MCSymbol_ptr \<times> u64 \<Rightarrow> Label2AddrMapTy \<Rightarrow> Label2AddrMapTy" where
  "dm_assign e ls =
     (let It = dm_find (fst e) ls
      in if It \<noteq> dm_end ls then ls[It := e] else ls @ [e])"

subsection \<open>The class and its query methods\<close>

record AddressMap =
  Address2AddressMap :: Addr2AddrMapTy
  Label2AddrMap :: Label2AddrMapTy

definition lookup :: "AddressMap \<Rightarrow> u64 \<Rightarrow> u64 option" where
  "lookup m InputAddress =
     (let It = umm_find InputAddress (Address2AddressMap m)
      in if It \<noteq> umm_end (Address2AddressMap m)
         then Some (snd (Address2AddressMap m ! It))
         else None)"

definition lookup_symbol :: "AddressMap \<Rightarrow> MCSymbol_ptr \<Rightarrow> u64 option" where
  "lookup_symbol m Symbol =
     (let It = dm_find Symbol (Label2AddrMap m)
      in if It \<noteq> dm_end (Label2AddrMap m)
         then Some (snd (Label2AddrMap m ! It))
         else None)"

definition lookupAll :: "AddressMap \<Rightarrow> u64 \<Rightarrow> nat \<times> nat" where
  "lookupAll m InputAddress = equal_range InputAddress (Address2AddressMap m)"

text \<open>
  The loop of \<open>getAllOutputs\<close>:
  \<^verbatim>\<open>for (auto It = Range.first; It != Range.second; ++It) Outputs.push_back(It->second);\<close>
  Reading or stepping an iterator that has reached \<open>end()\<close> is undefined behaviour in
  C++; the model returns \<open>None\<close> there, so that a proof of \<open>Some\<close> shows the loop stays
  inside the container and ends.
\<close>

function getAllOutputs_loop ::
  "Addr2AddrMapTy \<Rightarrow> nat \<Rightarrow> nat \<Rightarrow> u64 list \<Rightarrow> u64 list option" where
  "getAllOutputs_loop es It Last Outputs =
     (if It = Last then Some Outputs
      else if length es \<le> It then None
      else getAllOutputs_loop es (Suc It) Last (Outputs @ [snd (es ! It)]))"
  by pat_completeness auto
termination
  by (relation "measure (\<lambda>(es, It, Last, Outputs). length es - It)") auto

declare getAllOutputs_loop.simps [simp del]

definition getAllOutputs :: "AddressMap \<Rightarrow> u64 \<Rightarrow> u64 list option" where
  "getAllOutputs m InputAddress =
     (let Range = lookupAll m InputAddress
      in getAllOutputs_loop (Address2AddressMap m) (fst Range) (snd Range) [])"

subsection \<open>The query methods as state transformers\<close>














subsection \<open>Filling the map\<close>

text \<open>
  The header has no public method that writes to the map: both members are private and
  only the static \<open>parse\<close> fills a fresh one.
\<close>

text \<open>
  Modelled from the spec: the body of \<open>parse\<close> (\<open>AddressMap.cpp\<close>) is not among the
  sources; it starts from a map with no entry (section 4.3: a present but empty map when
  the sections are empty).
\<close>

definition AddressMap_empty :: AddressMap where
  "AddressMap_empty = \<lparr>Address2AddressMap = [], Label2AddrMap = []\<rparr>"

text \<open>
  Modelled from the spec: the body of \<open>parse\<close> is not among the sources. Section 4.3:
  for the address relation every successfully resolved record is inserted, duplicates
  allowed.
\<close>

definition insertAddress :: "placement \<Rightarrow> u64 \<times> u64 \<Rightarrow> AddressMap \<Rightarrow> AddressMap" where
  "insertAddress pl e m = m\<lparr>Address2AddressMap := emplace pl e (Address2AddressMap m)\<rparr>"

text \<open>
  Modelled from the spec: the body of \<open>parse\<close> is not among the sources. Sections 4.3
  and 9: for the label relation insertion follows a first-wins or a last-wins policy,
  which the specification leaves open; the policy is a parameter.
\<close>

datatype label_policy = FirstWins | LastWins

definition insertLabel :: "label_policy \<Rightarrow> MCSymbol_ptr \<times> u64 \<Rightarrow> AddressMap \<Rightarrow> AddressMap" where
  "insertLabel lp e m =
     (case lp of
        FirstWins \<Rightarrow> m\<lparr>Label2AddrMap := dm_insert e (Label2AddrMap m)\<rparr>
      | LastWins \<Rightarrow> m\<lparr>Label2AddrMap := dm_assign e (Label2AddrMap m)\<rparr>)"

text \<open>
  Modelled from the spec: no writer of the map is among the sources. A history of a map
  is the sequence of the insertions made into it (section 3: the map is built
  monotonically and is read-only afterwards).
\<close>

datatype update = InsertAddress "u64 \<times> u64" | InsertLabel "MCSymbol_ptr \<times> u64"

fun apply_update :: "placement \<Rightarrow> label_policy \<Rightarrow> AddressMap \<Rightarrow> update \<Rightarrow> AddressMap" where
  "apply_update pl lp m (InsertAddress e) = insertAddress pl e m"
| "apply_update pl lp m (InsertLabel e) = insertLabel lp e m"

definition apply_updates ::
  "placement \<Rightarrow> label_policy \<Rightarrow> update list \<Rightarrow> AddressMap \<Rightarrow> AddressMap" where
  "apply_updates pl lp us m = foldl (apply_update pl lp) m us"

subsection \<open>The emit and parse protocol\<close>

text \<open>
  Modelled from the spec: the class \<open>BinaryContext\<close> is not among the sources. Sections
  4.3 and 6: \<open>parse\<close> reads the two designated sections, each a sequence of records
  (input address or input label, output symbolic reference) or absent, and a resolver
  from symbolic reference to address. The byte layout is left open by section 6: a
  section is the sequence of its records.
\<close>

type_synonym symref = nat

type_synonym resolver = "symref \<Rightarrow> u64 option"

record BinaryContext =
  AddressSection :: "(u64 \<times> symref) list option"
  LabelSection :: "(MCSymbol_ptr \<times> symref) list option"
  Resolver :: resolver

text \<open>
  Modelled from the spec: the body of \<open>emit\<close> (\<open>AddressMap.cpp\<close>) is not among the
  sources. Section 4.2: every association is appended, in encounter order, to the two
  designated sections, as a record that holds the output position symbolically.
\<close>

definition emit ::
  "(u64 \<times> symref) list \<Rightarrow> (MCSymbol_ptr \<times> symref) list \<Rightarrow> BinaryContext \<Rightarrow> BinaryContext" where
  "emit addrs labels bc =
     bc\<lparr>AddressSection := Some (case AddressSection bc of None \<Rightarrow> addrs | Some rs \<Rightarrow> rs @ addrs),
        LabelSection := Some (case LabelSection bc of None \<Rightarrow> labels | Some rs \<Rightarrow> rs @ labels)\<rparr>"

text \<open>
  Modelled from the spec: the linking step is an external collaborator (section 1); all
  the model keeps of it is that it supplies the resolver that \<open>parse\<close> uses.
\<close>

definition link :: "resolver \<Rightarrow> BinaryContext \<Rightarrow> BinaryContext" where
  "link res bc = bc\<lparr>Resolver := res\<rparr>"

text \<open>
  Modelled from the spec: the body of \<open>parse\<close> is not among the sources. Section 4.3:
  records are read in the order stored; a record whose symbolic reference fails to
  resolve is skipped and parsing continues with the next record; every resolved record
  of the address section is inserted.
\<close>

fun parseAddressSection ::
  "placement \<Rightarrow> resolver \<Rightarrow> (u64 \<times> symref) list \<Rightarrow> AddressMap \<Rightarrow> AddressMap" where
  "parseAddressSection pl res [] m = m"
| "parseAddressSection pl res ((Input, Ref) # rs) m =
     (case res Ref of
        None \<Rightarrow> parseAddressSection pl res rs m
      | Some Output \<Rightarrow> parseAddressSection pl res rs (insertAddress pl (Input, Output) m))"

text \<open>
  Modelled from the spec: the body of \<open>parse\<close> is not among the sources. Section 4.3:
  the label section is read like the address section, each resolved record being
  inserted under the label policy.
\<close>

fun parseLabelSection ::
  "label_policy \<Rightarrow> resolver \<Rightarrow> (MCSymbol_ptr \<times> symref) list \<Rightarrow> AddressMap \<Rightarrow> AddressMap" where
  "parseLabelSection lp res [] m = m"
| "parseLabelSection lp res ((Label, Ref) # rs) m =
     (case res Ref of
        None \<Rightarrow> parseLabelSection lp res rs m
      | Some Output \<Rightarrow> parseLabelSection lp res rs (insertLabel lp (Label, Output) m))"

text \<open>
  Modelled from the spec: the body of \<open>parse\<close> is not among the sources. Section 4.3:
  the result is no value when the sections do not exist at all, and otherwise a map
  filled from the sections that exist (an empty section gives a present, empty map).
\<close>

definition parse :: "placement \<Rightarrow> label_policy \<Rightarrow> BinaryContext \<Rightarrow> AddressMap option" where
  "parse pl lp bc =
     (if AddressSection bc = None \<and> LabelSection bc = None then None
      else
        let Parsed = AddressMap_empty;
            Parsed = (case AddressSection bc of
                        None \<Rightarrow> Parsed
                      | Some rs \<Rightarrow> parseAddressSection pl (Resolver bc) rs Parsed);
            Parsed = (case LabelSection bc of
                        None \<Rightarrow> Parsed
                      | Some rs \<Rightarrow> parseLabelSection lp (Resolver bc) rs Parsed)
        in Some Parsed)"

subsection \<open>Notions used to state the properties\<close>

text \<open>
  \<open>entries_of k es\<close> are the elements of key \<open>k\<close> in the order of \<open>es\<close>, \<open>run_of k es\<close>
  is the stretch that \<open>equal_range\<close> delimits, and \<open>range_elems r es\<close> are the elements
  an iterator meets between the two ends of a range. \<open>grouped\<close> says that equal keys are
  adjacent. \<open>arrange pl vs\<close> is the order in which a group holds the values \<open>vs\<close> after
  they were emplaced one by one under the placement \<open>pl\<close>. \<open>resolved res rs\<close> are the
  records of a section that the resolver resolves, with the resolved address.
\<close>

definition entries_of :: "'k \<Rightarrow> ('k \<times> 'v) list \<Rightarrow> ('k \<times> 'v) list" where
  "entries_of k es = filter (\<lambda>e. fst e = k) es"

definition run_of :: "u64 \<Rightarrow> Addr2AddrMapTy \<Rightarrow> Addr2AddrMapTy" where
  "run_of k es = takeWhile (\<lambda>e. fst e = k) (dropWhile (\<lambda>e. fst e \<noteq> k) es)"

definition range_elems :: "nat \<times> nat \<Rightarrow> Addr2AddrMapTy \<Rightarrow> Addr2AddrMapTy" where
  "range_elems r es = take (snd r - fst r) (drop (fst r) es)"

fun grouped :: "Addr2AddrMapTy \<Rightarrow> bool" where
  "grouped [] = True"
| "grouped (e # es) = (grouped es \<and> (fst e \<in> fst ` set es \<longrightarrow> fst (hd es) = fst e))"

definition arrange :: "placement \<Rightarrow> u64 list \<Rightarrow> u64 list" where
  "arrange pl vs = foldl (\<lambda>grp v. insert_at (min (pl grp v) (length grp)) v grp) [] vs"

definition resolved :: "resolver \<Rightarrow> ('k \<times> symref) list \<Rightarrow> ('k \<times> u64) list" where
  "resolved res rs =
     concat (map (\<lambda>(k, r). case res r of None \<Rightarrow> [] | Some a \<Rightarrow> [(k, a)]) rs)"

text \<open>
  \<open>resolvable res rs\<close> are the records of a section whose reference resolves, and
  \<open>insertLabels\<close> is a sequence of label insertions under one policy.
\<close>

definition resolvable :: "resolver \<Rightarrow> ('k \<times> symref) list \<Rightarrow> ('k \<times> symref) list" where
  "resolvable res rs = filter (\<lambda>e. res (snd e) \<noteq> None) rs"

definition insertLabels :: "label_policy \<Rightarrow> (MCSymbol_ptr \<times> u64) list \<Rightarrow> AddressMap \<Rightarrow> AddressMap" where
  "insertLabels lp ps m = foldl (\<lambda>m e. insertLabel lp e m) m ps"

section \<open>Properties of the container operations\<close>

lemma umm_find_le: "umm_find k es \<le> length es"
  by (simp add: umm_find_def length_takeWhile_le)

lemma drop_umm_find: "drop (umm_find k es) es = dropWhile (\<lambda>e. fst e \<noteq> k) es"
  by (simp add: umm_find_def dropWhile_eq_drop)

lemma equal_range_eq:
  "equal_range k es = (umm_find k es, umm_find k es + length (run_of k es))"
  by (simp add: equal_range_def Let_def run_of_def drop_umm_find)

lemma run_of_le: "umm_find k es + length (run_of k es) \<le> length es"
proof -
  have "length (run_of k es) \<le> length (dropWhile (\<lambda>e. fst e \<noteq> k) es)"
    by (simp add: run_of_def length_takeWhile_le)
  also have "\<dots> = length es - umm_find k es"
    by (simp add: drop_umm_find [symmetric])
  finally show ?thesis using umm_find_le [of k es] by simp
qed

lemma take_run_of:
  "take (length (run_of k es)) (drop (umm_find k es) es) = run_of k es"
  by (simp add: drop_umm_find run_of_def takeWhile_eq_take [symmetric])

lemma loop_slice:
  "i \<le> j \<Longrightarrow> j \<le> length es \<Longrightarrow>
   getAllOutputs_loop es i j acc = Some (acc @ map snd (take (j - i) (drop i es)))"
proof (induction es i j acc rule: getAllOutputs_loop.induct)
  case (1 es It Last Outputs)
  show ?case
  proof (cases "It = Last")
    case True
    then show ?thesis by (simp add: getAllOutputs_loop.simps)
  next
    case False
    with "1.prems" have lt: "It < Last" "It < length es" by simp_all
    then have step: "take (Last - It) (drop It es) = es ! It # take (Last - Suc It) (drop (Suc It) es)"
      by (metis Cons_nth_drop_Suc Suc_diff_Suc take_Suc_Cons)
    from lt "1.prems" have "getAllOutputs_loop es (Suc It) Last (Outputs @ [snd (es ! It)]) =
        Some ((Outputs @ [snd (es ! It)]) @ map snd (take (Last - Suc It) (drop (Suc It) es)))"
      using False by (intro "1.IH") simp_all
    with False lt show ?thesis
      by (subst getAllOutputs_loop.simps) (simp add: step)
  qed
qed

lemma getAllOutputs_run:
  "getAllOutputs m k = Some (map snd (run_of k (Address2AddressMap m)))"
  using run_of_le [of k "Address2AddressMap m"]
  by (simp add: getAllOutputs_def lookupAll_def equal_range_eq loop_slice take_run_of)

lemma umm_find_run_Nil:
  "umm_find k es = length es \<Longrightarrow> run_of k es = []"
  by (induction es) (auto simp: umm_find_def run_of_def)

lemma umm_find_run_Cons:
  "umm_find k es \<noteq> length es \<Longrightarrow> \<exists>tl. run_of k es = es ! umm_find k es # tl"
  by (induction es) (auto simp: umm_find_def run_of_def)

lemma lookup_run:
  "lookup m k = (case run_of k (Address2AddressMap m) of [] \<Rightarrow> None | e # _ \<Rightarrow> Some (snd e))"
proof (cases "umm_find k (Address2AddressMap m) = length (Address2AddressMap m)")
  case True
  then show ?thesis by (simp add: lookup_def umm_end_def umm_find_run_Nil)
next
  case False
  from umm_find_run_Cons [OF False] obtain tl where
    "run_of k (Address2AddressMap m) = Address2AddressMap m ! umm_find k (Address2AddressMap m) # tl" ..
  with False show ?thesis by (simp add: lookup_def umm_end_def)
qed

lemma run_of_keys: "e \<in> set (run_of k es) \<Longrightarrow> fst e = k"
  by (auto simp: run_of_def dest: set_takeWhileD)

lemma run_of_Nil_iff: "run_of k es = [] \<longleftrightarrow> k \<notin> fst ` set es"
  by (induction es) (auto simp: run_of_def)

lemma insert_at_0 [simp]: "insert_at 0 x xs = x # xs"
  by (simp add: insert_at_def)

lemma insert_at_Suc [simp]: "insert_at (Suc p) x (y # ys) = y # insert_at p x ys"
  by (simp add: insert_at_def)

lemma insert_at_Nil [simp]: "insert_at p x [] = [x]"
  by (simp add: insert_at_def)

lemma insert_at_length [simp]: "insert_at (length xs) x xs = xs @ [x]"
  by (simp add: insert_at_def)

lemma set_insert_at [simp]: "set (insert_at p x xs) = insert x (set xs)"
proof -
  have "set (take p xs) \<union> set (drop p xs) = set xs"
    by (metis append_take_drop_id set_append)
  then show ?thesis by (auto simp: insert_at_def)
qed

lemma mset_insert_at [simp]: "mset (insert_at p x xs) = add_mset x (mset xs)"
proof -
  have "mset (take p xs) + mset (drop p xs) = mset xs"
    by (metis append_take_drop_id mset_append)
  then show ?thesis by (simp add: insert_at_def)
qed

lemma length_insert_at [simp]: "length (insert_at p x xs) = Suc (length xs)"
  by (simp add: insert_at_def)

lemma filter_insert_at_other:
  "\<not> P x \<Longrightarrow> filter P (insert_at p x xs) = filter P xs"
proof -
  assume "\<not> P x"
  then have "filter P (insert_at p x xs) = filter P (take p xs) @ filter P (drop p xs)"
    by (simp add: insert_at_def)
  also have "\<dots> = filter P (take p xs @ drop p xs)"
    by (simp only: filter_append)
  finally show ?thesis by simp
qed

lemma filter_insert_at_run:
  "P x \<Longrightarrow> q \<le> length (takeWhile P xs) \<Longrightarrow>
   filter P (insert_at q x xs) = insert_at q x (filter P xs)"
proof (induction xs arbitrary: q)
  case Nil
  then show ?case by simp
next
  case (Cons y ys)
  show ?case
  proof (cases q)
    case 0
    with Cons.prems show ?thesis by simp
  next
    case (Suc q')
    with Cons.prems have "P y" "q' \<le> length (takeWhile P ys)"
      by (auto split: if_splits)
    with Cons.IH [of q'] Cons.prems(1) Suc show ?thesis by simp
  qed
qed

lemma umm_find_end_iff: "umm_find k es = umm_end es \<longleftrightarrow> k \<notin> fst ` set es"
  by (induction es) (auto simp: umm_find_def umm_end_def)

lemma emplace_Nil: "emplace pl e [] = [e]"
  by (simp add: emplace_def equal_range_def umm_find_def umm_end_def)

lemma emplace_new: "fst e \<notin> fst ` set es \<Longrightarrow> emplace pl e es = e # es"
  using umm_find_end_iff [of "fst e" es]
  by (simp add: emplace_def equal_range_def Let_def)

lemma emplace_Cons_other:
  "fst x \<noteq> fst e \<Longrightarrow> fst e \<in> fst ` set es \<Longrightarrow> emplace pl e (x # es) = x # emplace pl e es"
proof -
  assume ne: "fst x \<noteq> fst e" and "fst e \<in> fst ` set es"
  then have "umm_find (fst e) es \<noteq> length es"
    using umm_find_end_iff [of "fst e" es] by (simp add: umm_end_def)
  with ne show ?thesis
    by (simp add: emplace_def equal_range_def umm_find_def umm_end_def Let_def)
qed

lemma emplace_Cons_same:
  "fst x = fst e \<Longrightarrow>
   emplace pl e (x # es) =
     insert_at (min (pl (map snd (takeWhile (\<lambda>y. fst y = fst e) (x # es))) (snd e))
                    (length (takeWhile (\<lambda>y. fst y = fst e) (x # es)))) e (x # es)"
  by (simp add: emplace_def equal_range_def umm_find_def umm_end_def Let_def
      takeWhile_eq_take [symmetric])

lemma set_emplace: "set (emplace pl e es) = insert e (set es)"
  by (simp add: emplace_def Let_def)

lemma keys_emplace: "fst ` set (emplace pl e es) = insert (fst e) (fst ` set es)"
  by (simp add: set_emplace)

lemma hd_emplace_other:
  "es \<noteq> [] \<Longrightarrow> fst (hd es) \<noteq> fst e \<Longrightarrow> fst e \<in> fst ` set es \<Longrightarrow>
   hd (emplace pl e es) = hd es"
proof (cases es)
  case Nil
  assume "es \<noteq> []"
  with Nil show ?thesis by simp
next
  case (Cons x xs)
  assume "fst (hd es) \<noteq> fst e" and "fst e \<in> fst ` set es"
  with Cons have "fst x \<noteq> fst e" and "fst e \<in> fst ` set xs" by auto
  with Cons show ?thesis by (simp add: emplace_Cons_other)
qed

lemma grouped_insert_at:
  "grouped xs \<Longrightarrow> xs \<noteq> [] \<Longrightarrow> fst (hd xs) = fst e \<Longrightarrow>
   q \<le> length (takeWhile (\<lambda>y. fst y = fst e) xs) \<Longrightarrow> grouped (insert_at q e xs)"
proof (induction xs arbitrary: q)
  case Nil
  then show ?case by simp
next
  case (Cons x xs)
  show ?case
  proof (cases q)
    case 0
    with Cons.prems show ?thesis by simp
  next
    case (Suc q')
    from Cons.prems have x: "fst x = fst e" and g: "grouped xs"
      and nxt: "fst e \<in> fst ` set xs \<longrightarrow> fst (hd xs) = fst e" by auto
    from Cons.prems Suc x have q': "q' \<le> length (takeWhile (\<lambda>y. fst y = fst e) xs)" by simp
    show ?thesis
    proof (cases q')
      case 0
      with Suc x g nxt show ?thesis by simp
    next
      case (Suc q'')
      with q' have ne: "xs \<noteq> []" and hd: "fst (hd xs) = fst e"
        by (cases xs; auto split: if_splits)+
      from Cons.IH [OF g ne hd q'] have "grouped (insert_at q' e xs)" .
      moreover have "fst (hd (insert_at q' e xs)) = fst e"
        using ne hd Suc by (cases xs) simp_all
      ultimately show ?thesis using \<open>q = Suc q'\<close> x by simp
    qed
  qed
qed

lemma grouped_emplace_present:
  "grouped es \<Longrightarrow> fst e \<in> fst ` set es \<Longrightarrow> grouped (emplace pl e es)"
proof (induction es)
  case Nil
  then show ?case by simp
next
  case (Cons x es)
  show ?case
  proof (cases "fst x = fst e")
    case True
    have "grouped (insert_at (min (pl (map snd (takeWhile (\<lambda>y. fst y = fst e) (x # es))) (snd e))
                    (length (takeWhile (\<lambda>y. fst y = fst e) (x # es)))) e (x # es))"
      using Cons.prems True by (intro grouped_insert_at) simp_all
    with True show ?thesis by (simp add: emplace_Cons_same)
  next
    case False
    with Cons.prems have present: "fst e \<in> fst ` set es" by auto
    with Cons have g: "grouped (emplace pl e es)" by simp
    have "fst (hd (emplace pl e es)) = fst x" if "fst x \<in> fst ` set (emplace pl e es)"
    proof -
      from that False have "fst x \<in> fst ` set es" by (simp add: keys_emplace)
      with Cons.prems have "fst (hd es) = fst x" and "es \<noteq> []" by auto
      with False present show ?thesis by (simp add: hd_emplace_other)
    qed
    with g False present show ?thesis by (simp add: emplace_Cons_other)
  qed
qed

lemma grouped_emplace: "grouped es \<Longrightarrow> grouped (emplace pl e es)"
proof (cases "fst e \<in> fst ` set es")
  case True
  assume "grouped es"
  then show ?thesis using True by (rule grouped_emplace_present)
next
  case False
  assume "grouped es"
  with False show ?thesis by (simp add: emplace_new)
qed

lemma grouped_filter_run: "grouped es \<Longrightarrow> entries_of k es = run_of k es"
proof (induction es)
  case Nil
  then show ?case by (simp add: entries_of_def run_of_def)
next
  case (Cons x es)
  then have IH: "entries_of k es = run_of k es" by simp
  show ?case
  proof (cases "fst x = k")
    case False
    with IH show ?thesis by (simp add: entries_of_def run_of_def)
  next
    case True
    have "filter (\<lambda>e. fst e = k) es = takeWhile (\<lambda>e. fst e = k) es"
    proof (cases "k \<in> fst ` set es")
      case False
      then have "filter (\<lambda>e. fst e = k) es = []" by (auto simp: filter_empty_conv)
      moreover from False have "takeWhile (\<lambda>e. fst e = k) es = []"
        by (cases es) auto
      ultimately show ?thesis by simp
    next
      case kin: True
      with Cons.prems True have "es \<noteq> []" "fst (hd es) = k" by auto
      then have "dropWhile (\<lambda>e. fst e \<noteq> k) es = es" by (cases es) auto
      with IH show ?thesis by (simp add: entries_of_def run_of_def)
    qed
    with True show ?thesis by (simp add: entries_of_def run_of_def)
  qed
qed

lemma map_insert_at: "map f (insert_at p x xs) = insert_at p (f x) (map f xs)"
  by (simp add: insert_at_def take_map drop_map)

lemma entries_of_emplace_other:
  "k \<noteq> fst e \<Longrightarrow> entries_of k (emplace pl e es) = entries_of k es"
  by (simp add: entries_of_def emplace_def Let_def filter_insert_at_other)

lemma entries_of_emplace_present:
  "grouped es \<Longrightarrow> k \<in> fst ` set es \<Longrightarrow>
   map snd (entries_of k (emplace pl (k, v) es)) =
     insert_at (min (pl (map snd (entries_of k es)) v) (length (entries_of k es))) v
       (map snd (entries_of k es))"
proof (induction es)
  case Nil
  then show ?case by simp
next
  case (Cons x es)
  show ?case
  proof (cases "fst x = k")
    case False
    with Cons.prems have "k \<in> fst ` set es" by auto
    with False Cons show ?thesis by (simp add: emplace_Cons_other entries_of_def)
  next
    case True
    let ?T = "takeWhile (\<lambda>y. fst y = k) (x # es)"
    let ?q = "min (pl (map snd ?T) v) (length ?T)"
    have T: "entries_of k (x # es) = ?T"
      using grouped_filter_run [OF Cons.prems(1), of k] True by (simp add: run_of_def)
    have "entries_of k (emplace pl (k, v) (x # es)) = filter (\<lambda>y. fst y = k) (insert_at ?q (k, v) (x # es))"
      using True by (simp add: emplace_Cons_same entries_of_def)
    also have "\<dots> = insert_at ?q (k, v) (filter (\<lambda>y. fst y = k) (x # es))"
      by (rule filter_insert_at_run) simp_all
    also have "\<dots> = insert_at ?q (k, v) ?T"
      using T by (simp add: entries_of_def)
    finally show ?thesis by (simp add: map_insert_at T)
  qed
qed

lemma entries_of_emplace_same:
  "grouped es \<Longrightarrow>
   map snd (entries_of k (emplace pl (k, v) es)) =
     insert_at (min (pl (map snd (entries_of k es)) v) (length (entries_of k es))) v
       (map snd (entries_of k es))"
proof (cases "k \<in> fst ` set es")
  case True
  assume "grouped es"
  then show ?thesis using True by (rule entries_of_emplace_present)
next
  case False
  then have "filter (\<lambda>e. fst e = k) es = []"
    by (force simp: filter_empty_conv)
  with False show ?thesis by (simp add: emplace_new entries_of_def)
qed

lemma arrange_Nil [simp]: "arrange pl [] = []"
  by (simp add: arrange_def)

lemma arrange_snoc:
  "arrange pl (vs @ [v]) =
     insert_at (min (pl (arrange pl vs) v) (length (arrange pl vs))) v (arrange pl vs)"
  by (simp add: arrange_def)

lemma length_arrange [simp]: "length (arrange pl vs) = length vs"
  by (induction vs rule: rev_induct) (simp_all add: arrange_snoc)

lemma mset_arrange [simp]: "mset (arrange pl vs) = mset vs"
  by (induction vs rule: rev_induct) (simp_all add: arrange_snoc)

lemma set_arrange [simp]: "set (arrange pl vs) = set vs"
  by (metis mset_arrange set_mset_mset)

lemma arrange_back [simp]: "arrange place_back vs = vs"
  by (induction vs rule: rev_induct) (simp_all add: arrange_snoc place_back_def)

lemma arrange_front [simp]: "arrange place_front vs = rev vs"
  by (induction vs rule: rev_induct) (simp_all add: arrange_snoc place_front_def)

lemma emplace_all_Nil [simp]: "emplace_all pl [] es = es"
  by (simp add: emplace_all_def)

lemma emplace_all_Cons [simp]:
  "emplace_all pl (e # ps) es = emplace_all pl ps (emplace pl e es)"
  by (simp add: emplace_all_def)

lemma emplace_all_snoc:
  "emplace_all pl (ps @ [e]) es = emplace pl e (emplace_all pl ps es)"
  by (simp add: emplace_all_def)

lemma grouped_emplace_all:
  "grouped es \<Longrightarrow> grouped (emplace_all pl ps es)"
  by (induction ps arbitrary: es) (simp_all add: grouped_emplace)

lemma keys_emplace_all:
  "fst ` set (emplace_all pl ps es) = fst ` set ps \<union> fst ` set es"
  by (induction ps arbitrary: es) (auto simp: keys_emplace)

lemma mset_emplace: "mset (emplace pl e es) = add_mset e (mset es)"
  by (simp add: emplace_def Let_def)

lemma mset_emplace_all: "mset (emplace_all pl ps es) = mset ps + mset es"
  by (induction ps arbitrary: es) (simp_all add: mset_emplace)

lemma insertAddress_sel [simp]:
  "Address2AddressMap (insertAddress pl e m) = emplace pl e (Address2AddressMap m)"
  "Label2AddrMap (insertAddress pl e m) = Label2AddrMap m"
  by (simp_all add: insertAddress_def)

lemma insertLabel_sel [simp]:
  "Address2AddressMap (insertLabel lp e m) = Address2AddressMap m"
  by (cases lp) (simp_all add: insertLabel_def)

lemma entries_of_snoc:
  "entries_of k (ps @ [e]) = (if fst e = k then entries_of k ps @ [e] else entries_of k ps)"
  by (simp add: entries_of_def)

lemma entries_emplace_all:
  "map snd (entries_of k (emplace_all pl ps [])) = arrange pl (map snd (entries_of k ps))"
proof (induction ps rule: rev_induct)
  case Nil
  then show ?case by (simp add: entries_of_def)
next
  case (snoc e ps)
  let ?es = "emplace_all pl ps []"
  have g: "grouped ?es"
    by (rule grouped_emplace_all) simp
  show ?case
  proof (cases "fst e = k")
    case False
    then have "k \<noteq> fst e" by blast
    with snoc show ?thesis
      by (simp add: emplace_all_snoc entries_of_emplace_other entries_of_snoc)
  next
    case True
    then have e: "e = (k, snd e)" by (cases e) simp
    have "map snd (entries_of k (emplace pl (k, snd e) ?es)) =
        insert_at (min (pl (map snd (entries_of k ?es)) (snd e)) (length (entries_of k ?es))) (snd e)
          (map snd (entries_of k ?es))"
      by (rule entries_of_emplace_same [OF g])
    moreover have "length (entries_of k ?es) = length (arrange pl (map snd (entries_of k ps)))"
      by (metis snoc length_map)
    ultimately show ?thesis
      using snoc True e
      by (simp add: emplace_all_snoc entries_of_snoc arrange_snoc del: length_arrange)
  qed
qed

lemma getAllOutputs_grouped:
  "grouped (Address2AddressMap m) \<Longrightarrow>
   getAllOutputs m k = Some (map snd (entries_of k (Address2AddressMap m)))"
  by (simp add: getAllOutputs_run grouped_filter_run)

lemma range_elems_lookupAll:
  "range_elems (lookupAll m a) (Address2AddressMap m) = run_of a (Address2AddressMap m)"
  by (simp add: range_elems_def lookupAll_def equal_range_eq take_run_of)

lemma run_emplace_all:
  "map snd (run_of k (emplace_all pl ps [])) = arrange pl (map snd (entries_of k ps))"
proof -
  have "run_of k (emplace_all pl ps []) = entries_of k (emplace_all pl ps [])"
    by (rule grouped_filter_run [symmetric]) (simp add: grouped_emplace_all)
  then show ?thesis by (simp only: entries_emplace_all)
qed


section \<open>The query methods\<close>

text \<open>
  Claim C9. For every map and every input address, \<open>getAllOutputs\<close> returns exactly the
  output addresses met by an iterator that walks the range returned by \<open>lookupAll\<close> from
  its first end to its second; the range is well formed (its first end is not after its
  second, and both lie inside the container), so the walk ends without leaving it.
\<close>

theorem getAllOutputs_traverses_lookupAll:
  "getAllOutputs m InputAddress =
     Some (map snd (range_elems (lookupAll m InputAddress) (Address2AddressMap m)))
   \<and> fst (lookupAll m InputAddress) \<le> snd (lookupAll m InputAddress)
   \<and> snd (lookupAll m InputAddress) \<le> umm_end (Address2AddressMap m)"
proof -
  have "getAllOutputs m InputAddress =
     Some (map snd (range_elems (lookupAll m InputAddress) (Address2AddressMap m)))"
    by (simp only: getAllOutputs_run range_elems_lookupAll)
  moreover have "fst (lookupAll m InputAddress) \<le> snd (lookupAll m InputAddress)"
    by (simp add: lookupAll_def equal_range_eq)
  moreover have "snd (lookupAll m InputAddress) \<le> umm_end (Address2AddressMap m)"
    using run_of_le [of InputAddress "Address2AddressMap m"]
    by (simp add: lookupAll_def equal_range_eq umm_end_def)
  ultimately show ?thesis by blast
qed

text \<open>
  Claim C10. For every map and every input address, \<open>getAllOutputs\<close> returns a sequence,
  \<open>lookup\<close> returns "not found" exactly when that sequence is empty, and a value that
  \<open>lookup\<close> returns is a member of the sequence (its first element).
\<close>

theorem lookup_consistent_with_getAllOutputs:
  "\<exists>outs. getAllOutputs m InputAddress = Some outs
     \<and> (lookup m InputAddress = None \<longleftrightarrow> outs = [])
     \<and> (\<forall>v. lookup m InputAddress = Some v \<longrightarrow> v \<in> set outs \<and> v = hd outs)"
  by (cases "run_of InputAddress (Address2AddressMap m)")
     (simp_all add: getAllOutputs_run lookup_run)

text \<open>
  An instance of C10: a map with two outputs for the address 0x1000, where \<open>lookup\<close>
  returns the first element of what \<open>getAllOutputs\<close> returns.
\<close>

theorem lookup_consistent_with_getAllOutputs_witness:
  "getAllOutputs \<lparr>Address2AddressMap = [(0x2000, 0x7000), (0x1000, 0x5020), (0x1000, 0x5000)],
                  Label2AddrMap = []\<rparr> 0x1000 = Some [0x5020, 0x5000]
   \<and> lookup \<lparr>Address2AddressMap = [(0x2000, 0x7000), (0x1000, 0x5020), (0x1000, 0x5000)],
             Label2AddrMap = []\<rparr> 0x1000 = Some 0x5020
   \<and> (0x5020 :: u64) \<in> set [0x5020, 0x5000]"
  using lookup_consistent_with_getAllOutputs
    [of "\<lparr>Address2AddressMap = [(0x2000, 0x7000), (0x1000, 0x5020), (0x1000, 0x5000)],
          Label2AddrMap = []\<rparr>" "0x1000"]
  by (simp add: getAllOutputs_run lookup_run run_of_def)


section \<open>Lookups after a sequence of insertions\<close>

text \<open>
  The claim C1 as stated, that \<open>lookupAll\<close> and \<open>getAllOutputs\<close> return the outputs
  in insertion order whatever the sequence of insertions, fails for a container that
  places a new element in front of the equal ones, as libstdc++ does: after
  0x1000 \<rightarrow> 0x5000 and then 0x1000 \<rightarrow> 0x5020, \<open>getAllOutputs(0x1000)\<close> is
  [0x5020, 0x5000].
\<close>

theorem lookupAll_insertion_order_counterexample:
  "getAllOutputs \<lparr>Address2AddressMap = emplace_all place_front [(0x1000, 0x5000), (0x1000, 0x5020)] [],
                  Label2AddrMap = []\<rparr> 0x1000 = Some [0x5020, 0x5000]
   \<and> getAllOutputs \<lparr>Address2AddressMap = emplace_all place_front [(0x1000, 0x5000), (0x1000, 0x5020)] [],
                  Label2AddrMap = []\<rparr> 0x1000
       \<noteq> Some (map snd (entries_of 0x1000 [(0x1000, 0x5000), (0x1000, 0x5020 :: u64)]))"
  by (simp add: getAllOutputs_run run_of_def entries_of_def emplace_Nil emplace_Cons_same place_front_def)

text \<open>
  Claim C1, amended. For every sequence of insertions and every placement of equal keys,
  \<open>getAllOutputs\<close>, and the walk over the range of \<open>lookupAll\<close>, return exactly the
  output addresses inserted for the input address, each as often as it was inserted, in
  the order in which the container holds the group: insertion order when a new element
  goes behind the equal ones, the reverse when it goes in front of them. The result is
  the empty sequence, and not an error, exactly when the input address was never
  inserted.
\<close>

theorem lookupAll_returns_recorded_outputs:
  "getAllOutputs \<lparr>Address2AddressMap = emplace_all pl ps [], Label2AddrMap = ls\<rparr> a =
     Some (arrange pl (map snd (entries_of a ps)))
   \<and> map snd (range_elems (lookupAll \<lparr>Address2AddressMap = emplace_all pl ps [], Label2AddrMap = ls\<rparr> a)
                 (emplace_all pl ps [])) = arrange pl (map snd (entries_of a ps))
   \<and> mset (arrange pl (map snd (entries_of a ps))) = mset (map snd (entries_of a ps))
   \<and> arrange place_back (map snd (entries_of a ps)) = map snd (entries_of a ps)
   \<and> arrange place_front (map snd (entries_of a ps)) = rev (map snd (entries_of a ps))
   \<and> (getAllOutputs \<lparr>Address2AddressMap = emplace_all pl ps [], Label2AddrMap = ls\<rparr> a = Some []
        \<longleftrightarrow> a \<notin> fst ` set ps)"
proof -
  let ?m = "\<lparr>Address2AddressMap = emplace_all pl ps [], Label2AddrMap = ls\<rparr>"
  have run: "map snd (run_of a (emplace_all pl ps [])) = arrange pl (map snd (entries_of a ps))"
    by (rule run_emplace_all)
  have outs: "getAllOutputs ?m a = Some (arrange pl (map snd (entries_of a ps)))"
    using run by (simp add: getAllOutputs_run)
  have rng: "map snd (range_elems (lookupAll ?m a) (emplace_all pl ps [])) =
      arrange pl (map snd (entries_of a ps))"
    using run range_elems_lookupAll [of ?m a] by simp
  have "arrange pl (map snd (entries_of a ps)) = [] \<longleftrightarrow> a \<notin> fst ` set ps"
  proof -
    have "arrange pl (map snd (entries_of a ps)) = [] \<longleftrightarrow> entries_of a ps = []"
      by (metis length_arrange length_0_conv length_map)
    also have "\<dots> \<longleftrightarrow> a \<notin> fst ` set ps"
      by (auto simp: entries_of_def filter_empty_conv)
    finally show ?thesis .
  qed
  with outs rng show ?thesis by simp
qed

text \<open>
  Claim C2. The header documents \<open>lookup\<close> as the way "to get the first (primary) output
  address", and the claim has it return the output recorded first. The code returns the
  head of the group of the input address. With a container that links a new element in
  front of the equal ones, as libstdc++ does, that is the output recorded last: after
  0x1000 \<rightarrow> 0x5000 and then 0x1000 \<rightarrow> 0x5020, \<open>lookup(0x1000)\<close> is 0x5020 and
  \<open>getAllOutputs(0x1000)\<close> is [0x5020, 0x5000]. With a container that links it behind
  the equal ones the same insertions give 0x5000 and [0x5000, 0x5020].
\<close>

theorem lookup_after_clone_insertion:
  "lookup \<lparr>Address2AddressMap = emplace_all place_front [(0x1000, 0x5000), (0x1000, 0x5020)] [],
           Label2AddrMap = []\<rparr> 0x1000 = Some 0x5020
   \<and> lookup \<lparr>Address2AddressMap = emplace_all place_front [(0x1000, 0x5000), (0x1000, 0x5020)] [],
           Label2AddrMap = []\<rparr> 0x1000 \<noteq> Some 0x5000
   \<and> getAllOutputs \<lparr>Address2AddressMap = emplace_all place_front [(0x1000, 0x5000), (0x1000, 0x5020)] [],
           Label2AddrMap = []\<rparr> 0x1000 = Some [0x5020, 0x5000]
   \<and> lookup \<lparr>Address2AddressMap = emplace_all place_back [(0x1000, 0x5000), (0x1000, 0x5020)] [],
           Label2AddrMap = []\<rparr> 0x1000 = Some 0x5000
   \<and> getAllOutputs \<lparr>Address2AddressMap = emplace_all place_back [(0x1000, 0x5000), (0x1000, 0x5020)] [],
           Label2AddrMap = []\<rparr> 0x1000 = Some [0x5000, 0x5020]"
  by (simp add: lookup_run getAllOutputs_run run_of_def emplace_Nil emplace_Cons_same
      place_front_def place_back_def)

section \<open>Lookups of keys that were never recorded\<close>

lemma dm_find_le: "dm_find s ls \<le> length ls"
  by (simp add: dm_find_def length_takeWhile_le)

lemma dm_find_end_iff: "dm_find s ls = dm_end ls \<longleftrightarrow> s \<notin> fst ` set ls"
  by (induction ls) (auto simp: dm_find_def dm_end_def)

lemma dm_find_key: "dm_find s ls \<noteq> dm_end ls \<Longrightarrow> fst (ls ! dm_find s ls) = s"
  by (induction ls) (auto simp: dm_find_def dm_end_def)

lemma lookup_symbol_map_of: "lookup_symbol m s = map_of (Label2AddrMap m) s"
proof -
  have "(let It = dm_find s ls in if It \<noteq> dm_end ls then Some (snd (ls ! It)) else None) = map_of ls s"
    for ls :: Label2AddrMapTy
    by (induction ls) (auto simp: dm_find_def dm_end_def)
  then show ?thesis by (simp add: lookup_symbol_def)
qed

lemma lookup_symbol_None_iff:
  "lookup_symbol m s = None \<longleftrightarrow> s \<notin> fst ` set (Label2AddrMap m)"
  by (simp add: lookup_symbol_map_of map_of_eq_None_iff)

lemma keys_dm_insert: "fst ` set (dm_insert e ls) = insert (fst e) (fst ` set ls)"
  using dm_find_end_iff [of "fst e" ls] by (auto simp: dm_insert_def)

lemma distinct_dm_insert:
  "distinct (map fst ls) \<Longrightarrow> distinct (map fst (dm_insert e ls))"
  using dm_find_end_iff [of "fst e" ls] by (auto simp: dm_insert_def)

lemma map_fst_dm_assign:
  "map fst (dm_assign e ls) = (if fst e \<in> fst ` set ls then map fst ls else map fst ls @ [fst e])"
proof (cases "dm_find (fst e) ls = dm_end ls")
  case True
  then show ?thesis using dm_find_end_iff [of "fst e" ls] by (simp add: dm_assign_def)
next
  case False
  then have "fst (ls ! dm_find (fst e) ls) = fst e" by (rule dm_find_key)
  then have "(map fst ls)[dm_find (fst e) ls := fst e] = map fst ls"
    using False dm_find_le [of "fst e" ls]
    by (metis dm_end_def le_neq_implies_less list_update_id nth_map)
  with False show ?thesis
    using dm_find_end_iff [of "fst e" ls] by (simp add: dm_assign_def map_update)
qed

lemma distinct_dm_assign:
  "distinct (map fst ls) \<Longrightarrow> distinct (map fst (dm_assign e ls))"
  by (simp add: map_fst_dm_assign)

lemma distinct_insertLabel:
  "distinct (map fst (Label2AddrMap m)) \<Longrightarrow> distinct (map fst (Label2AddrMap (insertLabel lp e m)))"
  by (cases lp) (simp_all add: insertLabel_def distinct_dm_insert distinct_dm_assign)

lemma distinct_apply_update:
  "distinct (map fst (Label2AddrMap m)) \<Longrightarrow>
   distinct (map fst (Label2AddrMap (apply_update pl lp m u)))"
  by (cases u) (simp_all add: distinct_insertLabel)

lemma distinct_apply_updates:
  "distinct (map fst (Label2AddrMap m)) \<Longrightarrow>
   distinct (map fst (Label2AddrMap (apply_updates pl lp us m)))"
  unfolding apply_updates_def
  by (induction us arbitrary: m) (simp_all add: distinct_apply_update)

lemma distinct_entries_of:
  "distinct (map fst ls) \<Longrightarrow> length (entries_of s ls) \<le> 1"
proof (induction ls)
  case Nil
  then show ?case by (simp add: entries_of_def)
next
  case (Cons x ls)
  show ?case
  proof (cases "fst x = s")
    case True
    with Cons.prems have "s \<notin> fst ` set ls" by auto
    then have "filter (\<lambda>e. fst e = s) ls = []"
      by (force simp: filter_empty_conv)
    with True show ?thesis by (simp add: entries_of_def)
  next
    case False
    with Cons show ?thesis by (simp add: entries_of_def)
  qed
qed

lemma distinct_lookup_symbol:
  "distinct (map fst (Label2AddrMap m)) \<Longrightarrow>
   lookup_symbol m s = Some a \<longleftrightarrow> (s, a) \<in> set (Label2AddrMap m)"
  by (simp add: lookup_symbol_map_of)

text \<open>
  Claim C6. For every map, an input address that is the key of no element makes \<open>lookup\<close>
  return "not found", \<open>lookupAll\<close> return the empty range at \<open>end()\<close> and
  \<open>getAllOutputs\<close> return the empty sequence; a label that is the key of no entry makes
  the lookup by label return "not found"; the same holds after any sequence of
  insertions that never inserted the address. No lookup fails: \<open>getAllOutputs\<close> returns
  a sequence for every map and every address, and the other three have no failing branch.
\<close>

theorem lookups_of_unrecorded_keys:
  "(InputAddress \<notin> fst ` set (Address2AddressMap m) \<longrightarrow>
      lookup m InputAddress = None
      \<and> lookupAll m InputAddress = (umm_end (Address2AddressMap m), umm_end (Address2AddressMap m))
      \<and> getAllOutputs m InputAddress = Some [])
   \<and> (Symbol \<notin> fst ` set (Label2AddrMap m) \<longrightarrow> lookup_symbol m Symbol = None)
   \<and> (InputAddress \<notin> fst ` set ps \<longrightarrow>
        lookup \<lparr>Address2AddressMap = emplace_all pl ps [], Label2AddrMap = ls\<rparr> InputAddress = None
        \<and> getAllOutputs \<lparr>Address2AddressMap = emplace_all pl ps [], Label2AddrMap = ls\<rparr> InputAddress = Some [])
   \<and> (\<exists>outs. getAllOutputs m a = Some outs)"
proof -
  have 1: "lookup m InputAddress = None
      \<and> lookupAll m InputAddress = (umm_end (Address2AddressMap m), umm_end (Address2AddressMap m))
      \<and> getAllOutputs m InputAddress = Some []"
    if "InputAddress \<notin> fst ` set (Address2AddressMap m)" for m
  proof -
    from that have r: "run_of InputAddress (Address2AddressMap m) = []"
      by (simp add: run_of_Nil_iff)
    from that have f: "umm_find InputAddress (Address2AddressMap m) = umm_end (Address2AddressMap m)"
      by (simp add: umm_find_end_iff)
    from r f show ?thesis
      by (simp add: lookup_run getAllOutputs_run lookupAll_def equal_range_eq)
  qed
  have 2: "lookup_symbol m Symbol = None" if "Symbol \<notin> fst ` set (Label2AddrMap m)"
    using that by (simp add: lookup_symbol_None_iff)
  have 3: "lookup \<lparr>Address2AddressMap = emplace_all pl ps [], Label2AddrMap = ls\<rparr> InputAddress = None
        \<and> getAllOutputs \<lparr>Address2AddressMap = emplace_all pl ps [], Label2AddrMap = ls\<rparr> InputAddress = Some []"
    if "InputAddress \<notin> fst ` set ps"
    using 1 [of "\<lparr>Address2AddressMap = emplace_all pl ps [], Label2AddrMap = ls\<rparr>"] that
    by (simp add: keys_emplace_all)
  from 1 [of m] 2 3 show ?thesis by (simp add: getAllOutputs_run)
qed

text \<open>
  An instance of C6: the address 0x3000 and the label at 7 were never recorded.
\<close>

theorem lookups_of_unrecorded_keys_witness:
  "(0x3000 :: u64) \<notin> fst ` set [(0x1000, 0x5000), (0x2000, 0x7000 :: u64)]
   \<and> MCSymbolAt 7 \<notin> fst ` set [(MCSymbolAt 3, 0x6000 :: u64)]
   \<and> lookup \<lparr>Address2AddressMap = [(0x1000, 0x5000), (0x2000, 0x7000)],
             Label2AddrMap = [(MCSymbolAt 3, 0x6000)]\<rparr> 0x3000 = None
   \<and> lookupAll \<lparr>Address2AddressMap = [(0x1000, 0x5000), (0x2000, 0x7000)],
             Label2AddrMap = [(MCSymbolAt 3, 0x6000)]\<rparr> 0x3000 = (2, 2)
   \<and> getAllOutputs \<lparr>Address2AddressMap = [(0x1000, 0x5000), (0x2000, 0x7000)],
             Label2AddrMap = [(MCSymbolAt 3, 0x6000)]\<rparr> 0x3000 = Some []
   \<and> lookup_symbol \<lparr>Address2AddressMap = [(0x1000, 0x5000), (0x2000, 0x7000)],
             Label2AddrMap = [(MCSymbolAt 3, 0x6000)]\<rparr> (MCSymbolAt 7) = None
   \<and> lookup \<lparr>Address2AddressMap = emplace_all place_front [(0x1000, 0x5000), (0x2000, 0x7000)] [],
             Label2AddrMap = []\<rparr> 0x3000 = None"
  using lookups_of_unrecorded_keys
    [of "0x3000" "\<lparr>Address2AddressMap = [(0x1000, 0x5000), (0x2000, 0x7000)],
             Label2AddrMap = [(MCSymbolAt 3, 0x6000)]\<rparr>" "MCSymbolAt 7"
        "[(0x1000, 0x5000), (0x2000, 0x7000)]" place_front "[]" "0x3000"]
  by (simp add: umm_end_def)

section \<open>Lookups leave the map as it is\<close>









section \<open>The label relation\<close>

text \<open>
  Claim C8. After any sequence of insertions into an empty map, under either label
  policy, the labels of the entries of the label relation are pairwise distinct: a label
  has at most one entry, the lookup by label returns an address exactly when the label
  has the entry with that address, and "not found" exactly when the label has no entry.
\<close>

theorem label_relation_single_valued:
  "distinct (map fst (Label2AddrMap (apply_updates pl lp us AddressMap_empty)))
   \<and> length (entries_of Symbol (Label2AddrMap (apply_updates pl lp us AddressMap_empty))) \<le> 1
   \<and> (lookup_symbol (apply_updates pl lp us AddressMap_empty) Symbol = Some a
        \<longleftrightarrow> (Symbol, a) \<in> set (Label2AddrMap (apply_updates pl lp us AddressMap_empty)))
   \<and> (lookup_symbol (apply_updates pl lp us AddressMap_empty) Symbol = None
        \<longleftrightarrow> Symbol \<notin> fst ` set (Label2AddrMap (apply_updates pl lp us AddressMap_empty)))"
proof -
  have d: "distinct (map fst (Label2AddrMap (apply_updates pl lp us AddressMap_empty)))"
    by (rule distinct_apply_updates) (simp add: AddressMap_empty_def)
  from d distinct_entries_of [OF d, of Symbol] distinct_lookup_symbol [OF d, of Symbol a]
  show ?thesis by (simp add: lookup_symbol_None_iff)
qed

section \<open>The parse protocol\<close>

lemma resolved_Nil [simp]: "resolved res [] = []"
  by (simp add: resolved_def)

lemma resolved_Cons:
  "resolved res ((k, r) # rs) =
     (case res r of None \<Rightarrow> resolved res rs | Some a \<Rightarrow> (k, a) # resolved res rs)"
  by (simp add: resolved_def split: option.split)

lemma resolved_total:
  "resolved (\<lambda>r. Some (f r)) rs = map (\<lambda>e. (fst e, f (snd e))) rs"
  by (induction rs) (auto simp: resolved_Cons)

lemma resolved_resolvable: "resolved res (resolvable res rs) = resolved res rs"
  unfolding resolvable_def by (induction rs) (auto simp: resolved_Cons)

lemma set_resolved:
  "set (resolved res rs) = {(k, a). \<exists>r. (k, r) \<in> set rs \<and> res r = Some a}"
  by (induction rs) (auto simp: resolved_Cons split: option.splits)

lemma parseAddressSection_eq:
  "parseAddressSection pl res rs m =
     m\<lparr>Address2AddressMap := emplace_all pl (resolved res rs) (Address2AddressMap m)\<rparr>"
proof (induction rs arbitrary: m)
  case Nil
  then show ?case by simp
next
  case (Cons x rs)
  obtain k r where x: "x = (k, r)" by (cases x)
  show ?case
    by (cases "res r") (simp_all add: x Cons resolved_Cons insertAddress_def)
qed

lemma parseLabelSection_eq:
  "parseLabelSection lp res rs m = insertLabels lp (resolved res rs) m"
proof (induction rs arbitrary: m)
  case Nil
  then show ?case by (simp add: insertLabels_def)
next
  case (Cons x rs)
  obtain k r where x: "x = (k, r)" by (cases x)
  show ?case
    by (cases "res r") (simp_all add: x Cons resolved_Cons insertLabels_def)
qed

lemma insertLabels_address [simp]:
  "Address2AddressMap (insertLabels lp ps m) = Address2AddressMap m"
  unfolding insertLabels_def by (induction ps arbitrary: m) simp_all

lemma keys_insertLabel:
  "fst ` set (Label2AddrMap (insertLabel lp e m)) = insert (fst e) (fst ` set (Label2AddrMap m))"
proof (cases lp)
  case FirstWins
  then show ?thesis by (simp add: insertLabel_def keys_dm_insert)
next
  case LastWins
  have "set (map fst (dm_assign e (Label2AddrMap m))) = insert (fst e) (fst ` set (Label2AddrMap m))"
    by (auto simp: map_fst_dm_assign)
  with LastWins show ?thesis by (simp add: insertLabel_def)
qed

lemma keys_insertLabels:
  "fst ` set (Label2AddrMap (insertLabels lp ps m)) = fst ` set ps \<union> fst ` set (Label2AddrMap m)"
  unfolding insertLabels_def
  by (induction ps arbitrary: m) (auto simp: keys_insertLabel)

lemma parse_eq:
  "parse pl lp bc =
     (if AddressSection bc = None \<and> LabelSection bc = None then None
      else Some (insertLabels lp (resolved (Resolver bc) (case LabelSection bc of None \<Rightarrow> [] | Some rs \<Rightarrow> rs))
             \<lparr>Address2AddressMap =
                emplace_all pl (resolved (Resolver bc) (case AddressSection bc of None \<Rightarrow> [] | Some rs \<Rightarrow> rs)) [],
              Label2AddrMap = []\<rparr>))"
  by (simp add: parse_def parseAddressSection_eq parseLabelSection_eq AddressMap_empty_def
      insertLabels_def split: option.split)

text \<open>
  Claim C4. \<open>parse\<close> returns no value exactly when neither section exists. When both
  sections, or one of them, exist and are empty, it returns a present map with no entry.
\<close>

theorem parse_no_value_iff_no_sections:
  "(parse pl lp bc = None \<longleftrightarrow> AddressSection bc = None \<and> LabelSection bc = None)
   \<and> parse pl lp \<lparr>AddressSection = None, LabelSection = None, Resolver = res\<rparr> = None
   \<and> parse pl lp \<lparr>AddressSection = Some [], LabelSection = Some [], Resolver = res\<rparr>
       = Some AddressMap_empty
   \<and> parse pl lp \<lparr>AddressSection = Some [], LabelSection = None, Resolver = res\<rparr>
       = Some AddressMap_empty
   \<and> parse pl lp \<lparr>AddressSection = None, LabelSection = Some [], Resolver = res\<rparr>
       = Some AddressMap_empty"
  by (simp add: parse_def Let_def)

text \<open>
  Claim C5. \<open>parse\<close> gives the same result on the sections as on the sections without
  the records whose reference does not resolve, and it returns a map whenever a section
  exists, whatever the records. The outputs of an input address in the parsed map are
  exactly the addresses that the resolver gives for the records of that input address,
  and a label is found exactly when one of its records resolves.
\<close>

theorem parse_skips_unresolved_records:
  "parse pl lp (bc\<lparr>AddressSection := map_option (resolvable (Resolver bc)) (AddressSection bc),
                  LabelSection := map_option (resolvable (Resolver bc)) (LabelSection bc)\<rparr>)
     = parse pl lp bc
   \<and> (parse pl lp bc = None \<longleftrightarrow> AddressSection bc = None \<and> LabelSection bc = None)
   \<and> (\<exists>M. parse pl lp \<lparr>AddressSection = Some rs, LabelSection = Some lrs, Resolver = res\<rparr> = Some M
      \<and> getAllOutputs M a = Some (arrange pl (map snd (entries_of a (resolved res rs))))
      \<and> (\<exists>outs. getAllOutputs M a = Some outs
            \<and> set outs = {Output. \<exists>Ref. (a, Ref) \<in> set rs \<and> res Ref = Some Output})
      \<and> (lookup_symbol M l \<noteq> None \<longleftrightarrow> (\<exists>Ref. (l, Ref) \<in> set lrs \<and> res Ref \<noteq> None)))"
proof -
  let ?M = "insertLabels lp (resolved res lrs)
             \<lparr>Address2AddressMap = emplace_all pl (resolved res rs) [], Label2AddrMap = []\<rparr>"
  have p: "parse pl lp \<lparr>AddressSection = Some rs, LabelSection = Some lrs, Resolver = res\<rparr> = Some ?M"
    by (simp add: parse_eq)
  have q: "parse pl lp (bc\<lparr>AddressSection := map_option (resolvable (Resolver bc)) (AddressSection bc),
                  LabelSection := map_option (resolvable (Resolver bc)) (LabelSection bc)\<rparr>)
     = parse pl lp bc"
    by (cases "AddressSection bc"; cases "LabelSection bc")
       (simp_all add: parse_eq resolved_resolvable)
  have outs: "getAllOutputs ?M a = Some (arrange pl (map snd (entries_of a (resolved res rs))))"
    by (simp add: getAllOutputs_run run_emplace_all)
  have "set (map snd (entries_of a (resolved res rs))) =
      {Output. \<exists>Ref. (a, Ref) \<in> set rs \<and> res Ref = Some Output}"
    by (auto simp: entries_of_def set_resolved image_iff)
  then have s: "set (arrange pl (map snd (entries_of a (resolved res rs)))) =
      {Output. \<exists>Ref. (a, Ref) \<in> set rs \<and> res Ref = Some Output}"
    by (simp only: set_arrange)
  have "fst ` set (Label2AddrMap ?M) = fst ` set (resolved res lrs)"
    by (simp add: keys_insertLabels)
  also have "\<dots> = {l. \<exists>Ref. (l, Ref) \<in> set lrs \<and> res Ref \<noteq> None}"
    by (force simp: set_resolved image_iff)
  finally have l: "lookup_symbol ?M l \<noteq> None \<longleftrightarrow> (\<exists>Ref. (l, Ref) \<in> set lrs \<and> res Ref \<noteq> None)"
    by (simp add: lookup_symbol_None_iff)
  have t: "parse pl lp bc = None \<longleftrightarrow> AddressSection bc = None \<and> LabelSection bc = None"
    by (simp add: parse_def Let_def)
  from p q outs s l t show ?thesis by blast
qed

text \<open>
  An instance of C5: the second of three records does not resolve; the first and the
  third are in the map, and the map is the one parsed from those two records alone.
\<close>

theorem parse_skips_unresolved_records_witness:
  "map_option (\<lambda>M. getAllOutputs M 0x1000)
     (parse place_back FirstWins
        \<lparr>AddressSection = Some [(0x1000, 1), (0x1000, 2), (0x1000, 3)], LabelSection = Some [],
         Resolver = [1 \<mapsto> 0x5000, 3 \<mapsto> 0x5020]\<rparr>) = Some (Some [0x5000, 0x5020])
   \<and> parse place_back FirstWins
          \<lparr>AddressSection = Some [(0x1000, 1), (0x1000, 3)], LabelSection = Some [],
           Resolver = [1 \<mapsto> 0x5000, 3 \<mapsto> 0x5020]\<rparr>
     = parse place_back FirstWins
          \<lparr>AddressSection = Some [(0x1000, 1), (0x1000, 2), (0x1000, 3)], LabelSection = Some [],
           Resolver = [1 \<mapsto> 0x5000, 3 \<mapsto> 0x5020]\<rparr>"
proof -
  let ?bc = "\<lparr>AddressSection = Some [(0x1000, 1), (0x1000, 2), (0x1000, 3)], LabelSection = Some [],
          Resolver = [1 \<mapsto> 0x5000, 3 \<mapsto> 0x5020]\<rparr>"
  have "map_option (\<lambda>M. getAllOutputs M 0x1000) (parse place_back FirstWins ?bc)
      = Some (Some [0x5000, 0x5020])"
    by (simp add: parse_eq resolved_def insertLabels_def getAllOutputs_run run_of_def
        emplace_Nil emplace_Cons_same place_back_def)
  moreover have "parse place_back FirstWins
          \<lparr>AddressSection = Some [(0x1000, 1), (0x1000, 3)], LabelSection = Some [],
           Resolver = [1 \<mapsto> 0x5000, 3 \<mapsto> 0x5020]\<rparr>
     = parse place_back FirstWins ?bc"
    using parse_skips_unresolved_records [of place_back FirstWins ?bc]
    by (simp add: resolvable_def)
  ultimately show ?thesis by blast
qed

section \<open>The round trip through emit and parse\<close>

text \<open>
  Claim C3. Emitting the associations into a context with no section, linking with a
  resolver that gives every symbolic reference an address, and parsing returns a map in
  which the outputs of every input address are exactly the addresses of the references
  emitted for it: the same set and the same multiset, in the order in which the
  container holds the group.
\<close>

theorem emit_parse_round_trip:
  "\<exists>M. parse pl lp (link (\<lambda>r. Some (addr_of r))
          (emit addrs labels \<lparr>AddressSection = None, LabelSection = None, Resolver = res0\<rparr>)) = Some M
     \<and> getAllOutputs M a = Some (arrange pl (map (\<lambda>e. addr_of (snd e)) (entries_of a addrs)))
     \<and> (\<exists>outs. getAllOutputs M a = Some outs
          \<and> mset outs = mset (map (\<lambda>e. addr_of (snd e)) (entries_of a addrs))
          \<and> set outs = addr_of ` {r. (a, r) \<in> set addrs})"
proof -
  let ?res = "\<lambda>r. Some (addr_of r)"
  let ?M = "insertLabels lp (resolved ?res labels)
             \<lparr>Address2AddressMap = emplace_all pl (resolved ?res addrs) [], Label2AddrMap = []\<rparr>"
  have p: "parse pl lp (link ?res
          (emit addrs labels \<lparr>AddressSection = None, LabelSection = None, Resolver = res0\<rparr>)) = Some ?M"
    by (simp add: parse_eq link_def emit_def)
  have e: "map snd (entries_of a (resolved ?res addrs)) = map (\<lambda>e. addr_of (snd e)) (entries_of a addrs)"
    by (simp add: resolved_total entries_of_def filter_map comp_def)
  have outs: "getAllOutputs ?M a = Some (arrange pl (map (\<lambda>e. addr_of (snd e)) (entries_of a addrs)))"
    by (simp add: getAllOutputs_run run_emplace_all e)
  have s: "set (map (\<lambda>e. addr_of (snd e)) (entries_of a addrs)) = addr_of ` {r. (a, r) \<in> set addrs}"
    by (force simp: entries_of_def image_iff)
  from p outs s show ?thesis by (auto simp: simp del: set_map)
qed

text \<open>
  An instance of C3: two references emitted for the address 0x1000 and one for 0x2000,
  resolved to 0x5000, 0x5020 and 0x7000; the parsed map holds both outputs of 0x1000.
\<close>

theorem emit_parse_round_trip_witness:
  "map_option (\<lambda>M. getAllOutputs M 0x1000)
     (parse place_front LastWins (link (\<lambda>r. Some (if r = 1 then 0x5000 else if r = 2 then 0x5020 else 0x7000))
        (emit [(0x1000, 1), (0x2000, 3), (0x1000, 2)] []
           \<lparr>AddressSection = None, LabelSection = None, Resolver = Map.empty\<rparr>)))
     = Some (Some [0x5020, 0x5000])
   \<and> set [0x5020, 0x5000 :: u64]
     = (\<lambda>r. if r = 1 then 0x5000 else if r = 2 then 0x5020 else 0x7000) `
         {r. (0x1000 :: u64, r) \<in> set [(0x1000, 1 :: nat), (0x2000, 3), (0x1000, 2)]}"
proof -
  let ?f = "\<lambda>r :: nat. if r = 1 then 0x5000 else if r = 2 then 0x5020 else (0x7000 :: u64)"
  let ?addrs = "[(0x1000, 1), (0x2000, 3), (0x1000, 2)] :: (u64 \<times> nat) list"
  let ?bc = "\<lparr>AddressSection = None, LabelSection = None, Resolver = Map.empty\<rparr>"
  from emit_parse_round_trip [of place_front LastWins ?f ?addrs "[]" Map.empty "0x1000"]
  obtain M outs where M: "parse place_front LastWins (link (\<lambda>r. Some (?f r)) (emit ?addrs [] ?bc)) = Some M"
    and g: "getAllOutputs M 0x1000 = Some (arrange place_front (map (\<lambda>e. ?f (snd e)) (entries_of 0x1000 ?addrs)))"
    and o: "getAllOutputs M 0x1000 = Some outs"
    and s: "set outs = ?f ` {r. (0x1000, r) \<in> set ?addrs}"
    by blast
  have "arrange place_front (map (\<lambda>e. ?f (snd e)) (entries_of 0x1000 ?addrs)) = [0x5020, 0x5000]"
    by (simp add: entries_of_def)
  with g o have "outs = [0x5020, 0x5000]" and "getAllOutputs M 0x1000 = Some [0x5020, 0x5000]"
    by simp_all
  with M s show ?thesis by simp
qed

end
